theory Spec2Isabelle
  imports Complex_Main
begin

section \<open>Loan calculator: the schedule engine of \<^verbatim>\<open>Loan_Calculator_project/streamlit_app.py\<close>\<close>

text \<open>
  The engine is the function \<^verbatim>\<open>compute_schedule\<close> (lines 19--111 of the source).
  Python computes with binary64 floating point numbers; this development models them as
  exact rationals (\<^typ>\<open>rat\<close>), so every result below is a statement about the algorithm in
  exact arithmetic. The one place where binary64 rounding changes the control flow of the
  payment formula is treated separately, with an explicit rounding operator.

  Exceptions of the source are values of the type \<open>error\<close>: the dictionary lookup of the
  compounding name (\<^verbatim>\<open>KeyError\<close>), a float division by zero
  (\<^verbatim>\<open>ZeroDivisionError\<close>) and a date beyond \<^verbatim>\<open>date.max\<close>
  (\<^verbatim>\<open>OverflowError\<close>).
\<close>

subsection \<open>Data\<close>

datatype error = KeyError | ZeroDivisionError | OverflowError

text \<open>A \<^verbatim>\<open>datetime.date\<close> is its proleptic Gregorian ordinal, between 1 and 3652059.\<close>

type_synonym date = int

text \<open>The arguments of \<^verbatim>\<open>compute_schedule\<close>.\<close>

record loan_parameters =
  principal :: rat
  annual_rate_pct :: rat
  years :: int
  start_date :: date
  compounding :: string
  flat_interest :: bool
  extra_per_period :: rat
  fees_flat :: rat
  fees_pct :: rat
  insurance_per_period :: rat

text \<open>
  The local variables of one loop iteration at the moment of \<^verbatim>\<open>sched.append\<close>
  (line 70), before any rounding: \<open>row_bal\<close> and \<open>row_cumulative\<close> are the updated
  running balance and running total.
\<close>

record loop_row =
  row_k :: nat
  row_d :: date
  row_base_payment :: rat
  row_principal_comp :: rat
  row_interest :: rat
  row_extra :: rat
  row_insurance :: rat
  row_bal :: rat
  row_cumulative :: rat

text \<open>One dictionary appended to \<^verbatim>\<open>sched\<close>, that is one row of the data frame.\<close>

record period_record =
  Period :: nat
  Date :: date
  Payment :: rat
  Principal :: rat
  Interest :: rat
  Extra :: rat
  Insurance :: rat
  Balance :: rat
  Cumulative_Paid :: rat

text \<open>
  The summary dictionary. \<open>Last_Payment_Date\<close> is a date, or the integer 0 in the branch
  for an empty data frame.
\<close>

record summary =
  EMI_Payment :: rat
  Total_Interest :: rat
  Total_Extra :: rat
  Total_Insurance :: rat
  Total_Paid :: rat
  Tenure :: nat
  Last_Payment_Date :: date
  Principal_incl_fees :: rat

subsection \<open>Rounding\<close>

text \<open>Round to the nearest integer, ties to the even one.\<close>

definition round_half_even :: "rat \<Rightarrow> int" where
  "round_half_even x =
     (let f = \<lfloor>x\<rfloor>; t = x - of_int f
      in if t < 1 / 2 then f
         else if 1 / 2 < t then f + 1
         else if even f then f else f + 1)"

text \<open>Python's \<^verbatim>\<open>round(x, 2)\<close> on an exact value.\<close>

definition round2 :: "rat \<Rightarrow> rat" where
  "round2 x = of_int (round_half_even (x * 100)) / 100"

text \<open>
  Rounding to binary64 (53 significant bits, ties to even, gradual underflow;
  the overflow to infinity is not modelled).
\<close>

fun bit_length :: "nat \<Rightarrow> nat" where
  "bit_length n = (if n = 0 then 0 else Suc (bit_length (n div 2)))"

definition binary_exponent :: "rat \<Rightarrow> int" where
  "binary_exponent x =
     (if 1 \<le> \<bar>x\<bar> then int (bit_length (nat \<lfloor>\<bar>x\<bar>\<rfloor>)) - 1
      else - int (bit_length (nat (\<lceil>1 / \<bar>x\<bar>\<rceil> - 1))))"

definition binary64 :: "rat \<Rightarrow> rat" where
  "binary64 x =
     (if x = 0 then 0
      else let e = max (binary_exponent x) (- 1022);
               ulp = (if 52 \<le> e then 2 ^ nat (e - 52) else 1 / 2 ^ nat (52 - e))
           in of_int (round_half_even (x / ulp)) * ulp)"

subsection \<open>Lines 33--48: derived quantities and the scheduled payment\<close>

definition periods_per_year_of :: "string \<Rightarrow> error + int" where
  "periods_per_year_of c =
     (case map_of [(''Monthly'', 12), (''Quarterly'', 4), (''Yearly'', 1)] c of
        None \<Rightarrow> Inl KeyError
      | Some v \<Rightarrow> Inr v)"

text \<open>Line 34: \<^verbatim>\<open>n = max(1, int(years * periods_per_year))\<close>.\<close>

definition total_periods :: "int \<Rightarrow> int \<Rightarrow> nat" where
  "total_periods yrs ppy = nat (max 1 (yrs * ppy))"

text \<open>
  Lines 37--48. The operator \<open>rnd\<close> is applied to the result of every floating point
  operation, in Python's order of evaluation; the exact model takes the identity for it.
  A float division raises when the divisor is zero.
\<close>

definition fdiv :: "(rat \<Rightarrow> rat) \<Rightarrow> rat \<Rightarrow> rat \<Rightarrow> error + rat" where
  "fdiv rnd a b = (if b = 0 then Inl ZeroDivisionError else Inr (rnd (a / b)))"

definition principal_with_fees_of :: "(rat \<Rightarrow> rat) \<Rightarrow> loan_parameters \<Rightarrow> rat" where
  "principal_with_fees_of rnd p =
     rnd (rnd (principal p + fees_flat p) + rnd (principal p * rnd (fees_pct p / 100)))"

definition period_rate_of :: "(rat \<Rightarrow> rat) \<Rightarrow> loan_parameters \<Rightarrow> int \<Rightarrow> rat" where
  "period_rate_of rnd p ppy = rnd (rnd (annual_rate_pct p / 100) / of_int ppy)"

definition base_payment_of ::
  "(rat \<Rightarrow> rat) \<Rightarrow> loan_parameters \<Rightarrow> nat \<Rightarrow> rat \<Rightarrow> rat \<Rightarrow> error + rat" where
  "base_payment_of rnd p n principal_with_fees r =
     (if flat_interest p then
        (let total_interest_flat =
               rnd (rnd (principal_with_fees * rnd (annual_rate_pct p / 100)) * of_int (years p))
         in fdiv rnd (rnd (principal_with_fees + total_interest_flat)) (of_nat n))
      else if r = 0 then fdiv rnd principal_with_fees (of_nat n)
      else fdiv rnd (rnd (rnd (principal_with_fees * r) * rnd (rnd (1 + r) ^ n)))
                    (rnd (rnd (rnd (1 + r) ^ n) - 1)))"

subsection \<open>Lines 50--90: the loop\<close>

text \<open>Lines 82--87: the due date moves by a fixed number of days.\<close>

definition date_add :: "date \<Rightarrow> int \<Rightarrow> error + date" where
  "date_add d days = (if 1 \<le> d + days \<and> d + days \<le> 3652059 then Inr (d + days) else Inl OverflowError)"

definition step_days :: "int \<Rightarrow> int" where
  "step_days ppy = (if ppy = 12 then 30 else if ppy = 4 then 91 else 365)"

text \<open>Lines 56--80: one iteration, from the running balance and running total.\<close>

definition loop_body ::
  "loan_parameters \<Rightarrow> rat \<Rightarrow> rat \<Rightarrow> rat \<Rightarrow> nat \<Rightarrow> date \<Rightarrow> rat \<Rightarrow> rat \<Rightarrow> loop_row" where
  "loop_body p principal_with_fees r base_payment k d bal cumulative =
     (let interest = (if flat_interest p then principal_with_fees * r else bal * r);
          principal_comp = min (base_payment - interest) bal;
          extra = min (extra_per_period p) (max 0 (bal - principal_comp));
          payment_this_period = principal_comp + interest + extra + insurance_per_period p
      in \<lparr>row_k = k, row_d = d, row_base_payment = base_payment,
          row_principal_comp = principal_comp, row_interest = interest, row_extra = extra,
          row_insurance = insurance_per_period p,
          row_bal = max 0 (bal - principal_comp - extra),
          row_cumulative = cumulative + payment_this_period\<rparr>)"

text \<open>
  The \<^verbatim>\<open>for k in range(1, n + 1)\<close> loop; the first numeric argument counts the
  iterations that remain. The date is advanced before the test that leaves the loop.
\<close>

fun amortize ::
  "loan_parameters \<Rightarrow> int \<Rightarrow> rat \<Rightarrow> rat \<Rightarrow> rat \<Rightarrow> nat \<Rightarrow> nat \<Rightarrow> date \<Rightarrow> rat \<Rightarrow> rat
     \<Rightarrow> error + loop_row list" where
  "amortize p ppy pwf r base 0 k d bal cumulative = Inr []"
| "amortize p ppy pwf r base (Suc m) k d bal cumulative =
     (let row = loop_body p pwf r base k d bal cumulative
      in case date_add d (step_days ppy) of
           Inl e \<Rightarrow> Inl e
         | Inr d' \<Rightarrow>
             if row_bal row \<le> 0 then Inr [row]
             else (case amortize p ppy pwf r base m (Suc k) d' (row_bal row) (row_cumulative row) of
                     Inl e \<Rightarrow> Inl e
                   | Inr rows \<Rightarrow> Inr (row # rows)))"

text \<open>Lines 70--80: the dictionary built from the locals, every amount rounded.\<close>

definition sched_entry :: "loop_row \<Rightarrow> period_record" where
  "sched_entry w =
     \<lparr>Period = row_k w, Date = row_d w, Payment = round2 (row_base_payment w),
      Principal = round2 (row_principal_comp w), Interest = round2 (row_interest w),
      Extra = round2 (row_extra w), Insurance = round2 (row_insurance w),
      Balance = round2 (row_bal w), Cumulative_Paid = round2 (row_cumulative w)\<rparr>"

subsection \<open>Lines 92--111: the summary\<close>

definition summarize :: "period_record list \<Rightarrow> rat \<Rightarrow> summary" where
  "summarize df principal_with_fees =
     (if df = [] then
        \<lparr>EMI_Payment = 0, Total_Interest = 0, Total_Extra = 0, Total_Insurance = 0,
         Total_Paid = 0, Tenure = 0, Last_Payment_Date = 0, Principal_incl_fees = 0\<rparr>
      else
        \<lparr>EMI_Payment = round2 (Payment (hd df)),
         Total_Interest = round2 (sum_list (map Interest df)),
         Total_Extra = round2 (sum_list (map Extra df)),
         Total_Insurance = round2 (sum_list (map Insurance df)),
         Total_Paid = round2 (sum_list (map Payment df) + sum_list (map Extra df)
                              + sum_list (map Insurance df)),
         Tenure = length df,
         Last_Payment_Date = Date (last df),
         Principal_incl_fees = round2 principal_with_fees\<rparr>)"

subsection \<open>The whole function\<close>

text \<open>The rows of the loop, for the exact model of lines 33--90.\<close>

definition schedule_rows :: "loan_parameters \<Rightarrow> error + loop_row list" where
  "schedule_rows p =
     (case periods_per_year_of (compounding p) of
        Inl e \<Rightarrow> Inl e
      | Inr ppy \<Rightarrow>
          (let n = total_periods (years p) ppy;
               pwf = principal_with_fees_of (\<lambda>x. x) p;
               r = period_rate_of (\<lambda>x. x) p ppy
           in case base_payment_of (\<lambda>x. x) p n pwf r of
                Inl e \<Rightarrow> Inl e
              | Inr base \<Rightarrow> amortize p ppy pwf r base n 1 (start_date p) pwf 0))"

definition compute_schedule :: "loan_parameters \<Rightarrow> error + period_record list \<times> summary" where
  "compute_schedule p =
     (case schedule_rows p of
        Inl e \<Rightarrow> Inl e
      | Inr rows \<Rightarrow>
          (let df = map sched_entry rows
           in Inr (df, summarize df (principal_with_fees_of (\<lambda>x. x) p))))"

subsection \<open>Auxiliary notions for the proofs\<close>

text \<open>
  The balance that one period without extra payment leaves, before it is clamped at zero,
  and the balances of the undisturbed schedule.
\<close>

definition sched_next :: "loan_parameters \<Rightarrow> rat \<Rightarrow> rat \<Rightarrow> rat \<Rightarrow> rat \<Rightarrow> rat" where
  "sched_next p pwf r base b = b - (base - (if flat_interest p then pwf * r else b * r))"

definition sched_bal :: "loan_parameters \<Rightarrow> rat \<Rightarrow> rat \<Rightarrow> rat \<Rightarrow> nat \<Rightarrow> rat" where
  "sched_bal p pwf r base j = (sched_next p pwf r base ^^ j) pwf"

text \<open>
  A list of rows is a run of the loop from a given state: each row is computed from the
  state its predecessor left, and a row is followed by another one only when its balance
  is positive.
\<close>

fun follows_loop ::
  "loan_parameters \<Rightarrow> int \<Rightarrow> rat \<Rightarrow> rat \<Rightarrow> rat \<Rightarrow> nat \<Rightarrow> date \<Rightarrow> rat \<Rightarrow> rat \<Rightarrow> loop_row list \<Rightarrow> bool" where
  "follows_loop p ppy pwf r base k d bal cum [] = True"
| "follows_loop p ppy pwf r base k d bal cum (w # ws) =
     (w = loop_body p pwf r base k d bal cum \<and> (ws = [] \<or> 0 < row_bal w) \<and>
      follows_loop p ppy pwf r base (Suc k) (d + step_days ppy) (row_bal w) (row_cumulative w) ws)"

text \<open>
  The derived quantities of a loan with non-negative amounts and rate: the scheduled
  payment in each of the three cases of lines 41--48.
\<close>

definition valid_setup :: "loan_parameters \<Rightarrow> nat \<Rightarrow> rat \<Rightarrow> rat \<Rightarrow> rat \<Rightarrow> bool" where
  "valid_setup p n pwf r base \<longleftrightarrow>
     0 < n \<and> 0 \<le> pwf \<and> 0 \<le> r \<and> 0 \<le> extra_per_period p \<and>
     (if flat_interest p then base = pwf / of_nat n + pwf * r
      else if r = 0 then base = pwf / of_nat n
      else base = pwf * r * (1 + r) ^ n / ((1 + r) ^ n - 1))"


text \<open>The balance before period \<open>i\<close> of a run that starts from \<open>bal\<close>.\<close>

definition bal_before :: "rat \<Rightarrow> loop_row list \<Rightarrow> nat \<Rightarrow> rat" where
  "bal_before bal rows i = (if i = 0 then bal else row_bal (rows ! (i - 1)))"


subsection \<open>Example loans\<close>

text \<open>A loan without fees and insurance that starts on 2024-01-01.\<close>

definition plain_loan :: "rat \<Rightarrow> rat \<Rightarrow> int \<Rightarrow> string \<Rightarrow> bool \<Rightarrow> rat \<Rightarrow> loan_parameters" where
  "plain_loan P rate yrs c flat extra =
     \<lparr>principal = P, annual_rate_pct = rate, years = yrs, start_date = 738886, compounding = c,
      flat_interest = flat, extra_per_period = extra, fees_flat = 0, fees_pct = 0,
      insurance_per_period = 0\<rparr>"

subsection \<open>The payment formula as the specification words it\<close>

text \<open>
  The specification's Parameter Normalizer and Payment Formula Selector, over the
  compounding enumeration.
\<close>

definition spec_periods_per_year :: "loan_parameters \<Rightarrow> int" where
  "spec_periods_per_year p =
     (if compounding p = ''Monthly'' then 12 else if compounding p = ''Quarterly'' then 4 else 1)"

definition spec_total_periods :: "loan_parameters \<Rightarrow> int" where
  "spec_total_periods p = max 1 (years p * spec_periods_per_year p)"

definition spec_period_rate :: "loan_parameters \<Rightarrow> rat" where
  "spec_period_rate p = (annual_rate_pct p / 100) / of_int (spec_periods_per_year p)"

definition spec_adjusted_principal :: "loan_parameters \<Rightarrow> rat" where
  "spec_adjusted_principal p = principal p + fees_flat p + principal p * (fees_pct p / 100)"

definition spec_base_payment :: "loan_parameters \<Rightarrow> rat" where
  "spec_base_payment p =
     (if flat_interest p then
        (spec_adjusted_principal p
           + spec_adjusted_principal p * (annual_rate_pct p / 100) * of_int (years p))
        / of_int (spec_total_periods p)
      else if spec_period_rate p = 0 then spec_adjusted_principal p / of_int (spec_total_periods p)
      else spec_adjusted_principal p * spec_period_rate p
             * (1 + spec_period_rate p) ^ nat (spec_total_periods p)
           / ((1 + spec_period_rate p) ^ nat (spec_total_periods p) - 1))"

text \<open>
  The flat-interest scenario of the specification: 100000 at 10 percent for one year,
  monthly, without extras, fees or insurance, from the start date \<open>d\<close>.
\<close>

definition flat_scenario :: "date \<Rightarrow> loan_parameters" where
  "flat_scenario d = (plain_loan 100000 10 1 ''Monthly'' True 0)\<lparr>start_date := d\<rparr>"

subsection \<open>Sums over a row and over a record\<close>

text \<open>Line 66: the cash paid in a period, and the part of it that reduces the balance.\<close>

definition payment_this_period :: "loop_row \<Rightarrow> rat" where
  "payment_this_period w = row_principal_comp w + row_interest w + row_extra w + row_insurance w"




text \<open>
  The reducing-balance scenario of the specification: 2500000 at 9 percent for twenty
  years, monthly, without fees or insurance, from the start date \<open>d\<close> and with the extra
  payment \<open>e\<close>.
\<close>

definition emi_scenario :: "date \<Rightarrow> rat \<Rightarrow> loan_parameters" where
  "emi_scenario d e = (plain_loan 2500000 9 20 ''Monthly'' False e)\<lparr>start_date := d\<rparr>"

section \<open>Rounding\<close>

lemma round_half_even_of_int: "round_half_even (of_int z) = z"
  by (simp add: round_half_even_def)

lemma round_half_even_bounds:
  "\<lfloor>x\<rfloor> \<le> round_half_even x" "round_half_even x \<le> \<lfloor>x\<rfloor> + 1"
  by (simp_all add: round_half_even_def Let_def)


lemma round_half_even_mono:
  assumes "x \<le> y" shows "round_half_even x \<le> round_half_even y"
proof (cases "\<lfloor>x\<rfloor> = \<lfloor>y\<rfloor>")
  case True
  then show ?thesis using assms
    by (auto simp add: round_half_even_def Let_def)
next
  case False
  with assms have "\<lfloor>x\<rfloor> + 1 \<le> \<lfloor>y\<rfloor>"
    using floor_mono [OF assms] by linarith
  then show ?thesis
    using round_half_even_bounds(2) [of x] round_half_even_bounds(1) [of y] by linarith
qed

lemma round2_cents: "round2 (of_int z / 100) = of_int z / 100"
  by (simp add: round2_def round_half_even_of_int)

lemma round2_idem: "round2 (round2 x) = round2 x"
  unfolding round2_def [of x] by (rule round2_cents)


lemma round2_mono: "x \<le> y \<Longrightarrow> round2 x \<le> round2 y"
  unfolding round2_def
  by (simp add: divide_right_mono round_half_even_mono)

lemma round2_zero: "round2 0 = 0"
  by (simp add: round2_def round_half_even_def)

lemma round2_nonneg: "0 \<le> x \<Longrightarrow> 0 \<le> round2 x"
  using round2_mono [of 0 x] by (simp add: round2_zero)

lemma round2_add_cents: "round2 (round2 a + round2 b) = round2 a + round2 b"
proof -
  have "round2 a + round2 b = of_int (round_half_even (a * 100) + round_half_even (b * 100)) / 100"
    by (simp add: round2_def add_divide_distrib)
  then show ?thesis by (simp only: round2_cents)
qed

lemma round2_fixed_add: "round2 a = a \<Longrightarrow> round2 b = b \<Longrightarrow> round2 (a + b) = a + b"
  using round2_add_cents [of a b] by simp

lemma round2_sum_list_fixed: "(\<And>x. x \<in> set xs \<Longrightarrow> round2 x = x) \<Longrightarrow> round2 (sum_list xs) = sum_list xs"
  by (induction xs) (simp_all add: round2_zero round2_fixed_add)

section \<open>The loop\<close>

lemma loop_body_fields:
  "row_k (loop_body p pwf r base k d bal cum) = k"
  "row_d (loop_body p pwf r base k d bal cum) = d"
  "row_base_payment (loop_body p pwf r base k d bal cum) = base"
  "row_interest (loop_body p pwf r base k d bal cum) = (if flat_interest p then pwf * r else bal * r)"
  "row_principal_comp (loop_body p pwf r base k d bal cum) =
     min (base - (if flat_interest p then pwf * r else bal * r)) bal"
  "row_insurance (loop_body p pwf r base k d bal cum) = insurance_per_period p"
  by (simp_all add: loop_body_def Let_def)




lemma loop_body_bal_next:
  "0 \<le> extra_per_period p \<Longrightarrow>
   row_bal (loop_body p pwf r base k d bal cum) = max 0 (sched_next p pwf r base bal - extra_per_period p)"
  by (simp add: loop_body_def Let_def sched_next_def min_def max_def)

lemma amortize_follows:
  "amortize p ppy pwf r base m k d bal cum = Inr rows \<Longrightarrow>
   follows_loop p ppy pwf r base k d bal cum rows \<and> length rows \<le> m \<and> (0 < m \<longrightarrow> rows \<noteq> [])
   \<and> (length rows < m \<longrightarrow> row_bal (last rows) \<le> 0)"
proof (induction m arbitrary: k d bal cum rows)
  case 0
  then show ?case by simp
next
  case (Suc m)
  let ?w = "loop_body p pwf r base k d bal cum"
  from Suc.prems obtain d' where d': "date_add d (step_days ppy) = Inr d'"
    by (auto simp add: Let_def split: sum.splits)
  then have d'_eq: "d' = d + step_days ppy"
    by (auto simp add: date_add_def split: if_splits)
  show ?case
  proof (cases "row_bal ?w \<le> 0")
    case True
    with Suc.prems d' have "rows = [?w]" by (simp add: Let_def)
    with True show ?thesis by simp
  next
    case False
    with Suc.prems d' obtain ws where
      ws: "amortize p ppy pwf r base m (Suc k) d' (row_bal ?w) (row_cumulative ?w) = Inr ws"
      and rows: "rows = ?w # ws"
      by (auto simp add: Let_def split: sum.splits)
    from Suc.IH [OF ws] False rows d'_eq show ?thesis
      by (cases ws) auto
  qed
qed

lemma follows_loop_positive:
  "follows_loop p ppy pwf r base k d bal cum rows \<Longrightarrow> Suc i < length rows \<Longrightarrow> 0 < row_bal (rows ! i)"
proof (induction rows arbitrary: k d bal cum i)
  case Nil
  then show ?case by simp
next
  case (Cons w ws)
  show ?case
  proof (cases i)
    case 0
    with Cons.prems show ?thesis by auto
  next
    case (Suc i')
    with Cons.prems have "follows_loop p ppy pwf r base (Suc k) (d + step_days ppy) (row_bal w) (row_cumulative w) ws"
      and "Suc i' < length ws" by auto
    from Cons.IH [OF this] Suc show ?thesis by simp
  qed
qed

lemma follows_loop_fields:
  "follows_loop p ppy pwf r base k d bal cum rows \<Longrightarrow> i < length rows \<Longrightarrow>
   row_k (rows ! i) = k + i \<and> row_base_payment (rows ! i) = base \<and>
   row_insurance (rows ! i) = insurance_per_period p \<and>
   row_d (rows ! i) = d + int i * step_days ppy"
proof (induction rows arbitrary: k d bal cum i)
  case Nil
  then show ?case by simp
next
  case (Cons w ws)
  show ?case
  proof (cases i)
    case 0
    with Cons.prems show ?thesis by (simp add: loop_body_fields)
  next
    case (Suc i')
    with Cons.prems have "follows_loop p ppy pwf r base (Suc k) (d + step_days ppy) (row_bal w) (row_cumulative w) ws"
      and "i' < length ws" by auto
    from Cons.IH [OF this] Suc show ?thesis by (simp add: algebra_simps)
  qed
qed

lemma bal_before_simps:
  "bal_before bal rows 0 = bal"
  "bal_before bal (w # ws) (Suc i) = bal_before (row_bal w) ws i"
  by (simp_all add: bal_before_def nth_Cons split: nat.splits)

lemma follows_loop_nth:
  "follows_loop p ppy pwf r base k d bal cum rows \<Longrightarrow> i < length rows \<Longrightarrow>
   \<exists>k' d' cum'. rows ! i = loop_body p pwf r base k' d' (bal_before bal rows i) cum'"
proof (induction rows arbitrary: k d bal cum i)
  case Nil
  then show ?case by simp
next
  case (Cons w ws)
  show ?case
  proof (cases i)
    case 0
    with Cons.prems show ?thesis by (auto simp add: bal_before_simps)
  next
    case (Suc i')
    with Cons.prems have "follows_loop p ppy pwf r base (Suc k) (d + step_days ppy) (row_bal w) (row_cumulative w) ws"
      and "i' < length ws" by auto
    from Cons.IH [OF this] Suc show ?thesis by (simp add: bal_before_simps)
  qed
qed


section \<open>The undisturbed schedule\<close>

lemma sched_bal_0: "sched_bal p pwf r base 0 = pwf"
  by (simp add: sched_bal_def)

lemma sched_bal_Suc: "sched_bal p pwf r base (Suc j) = sched_next p pwf r base (sched_bal p pwf r base j)"
  by (simp add: sched_bal_def)

lemma sched_next_mono:
  assumes "0 \<le> r" "b \<le> b'"
  shows "sched_next p pwf r base b \<le> sched_next p pwf r base b'"
proof -
  have "b * r \<le> b' * r" using assms by (rule_tac mult_right_mono)
  with assms(2) show ?thesis by (simp add: sched_next_def)
qed

lemma sched_next_shift:
  assumes "0 \<le> r" "0 \<le> x"
  shows "sched_next p pwf r base (b - x) \<le> sched_next p pwf r base b - x"
proof -
  have "0 \<le> x * r" using assms by simp
  then show ?thesis by (simp add: sched_next_def algebra_simps)
qed

text \<open>Straight-line schedule: flat interest, or a zero rate.\<close>

lemma funpow_subtract:
  assumes "\<And>b::rat. f b = b - q"
  shows "(f ^^ j) x = x - of_nat j * q"
proof (induction j)
  case 0
  show ?case by simp
next
  case (Suc j)
  have "(f ^^ Suc j) x = (f ^^ j) x - q" by (simp add: assms)
  also have "\<dots> = x - of_nat j * q - q" by (simp only: Suc)
  also have "\<dots> = x - of_nat (Suc j) * q" by (simp add: algebra_simps)
  finally show ?case .
qed

lemma sched_bal_linear:
  assumes "valid_setup p n pwf r base" "flat_interest p \<or> r = 0"
  shows "sched_bal p pwf r base j = pwf - of_nat j * (pwf / of_nat n)"
proof -
  from assms have "sched_next p pwf r base b = b - pwf / of_nat n" for b
    by (auto simp add: valid_setup_def sched_next_def)
  then show ?thesis unfolding sched_bal_def by (rule funpow_subtract)
qed

lemma annuity_denominator_pos:
  assumes "0 < (r::rat)" "0 < n"
  shows "0 < (1 + r) ^ n - 1"
proof -
  have "1 < (1 + r) ^ n" using assms by (simp add: one_less_power)
  then show ?thesis by simp
qed

lemma sched_bal_annuity:
  assumes "valid_setup p n pwf r base" "\<not> flat_interest p" "r \<noteq> 0"
  shows "sched_bal p pwf r base j = pwf * ((1 + r) ^ n - (1 + r) ^ j) / ((1 + r) ^ n - 1)"
proof (induction j)
  case 0
  from assms have "0 < r" "0 < n" by (auto simp add: valid_setup_def)
  then have "(1 + r) ^ n - 1 \<noteq> 0" using annuity_denominator_pos [of r n] by linarith
  then show ?case by (simp add: sched_bal_0)
next
  case (Suc j)
  from assms have r: "0 < r" and n: "0 < n"
    and base: "base = pwf * r * (1 + r) ^ n / ((1 + r) ^ n - 1)"
    by (auto simp add: valid_setup_def)
  define D where "D = (1 + r) ^ n - 1"
  have D: "D \<noteq> 0" using annuity_denominator_pos [OF r n] by (simp add: D_def)
  have next_eq: "sched_next p pwf r base b = b * (1 + r) - base" for b
    using assms(2) by (simp add: sched_next_def algebra_simps)
  have "sched_bal p pwf r base (Suc j) = sched_bal p pwf r base j * (1 + r) - base"
    by (simp only: sched_bal_Suc next_eq)
  also have "\<dots> = pwf * ((1 + r) ^ n - (1 + r) ^ j) / D * (1 + r) - pwf * r * (1 + r) ^ n / D"
    unfolding Suc D_def by (simp only: base)
  also have "\<dots> = pwf * ((1 + r) ^ n - (1 + r) ^ Suc j) / D"
    using D by (simp add: field_simps)
  finally show ?case by (simp add: D_def)
qed

lemma sched_bal_end:
  assumes "valid_setup p n pwf r base"
  shows "sched_bal p pwf r base n = 0"
proof (cases "flat_interest p \<or> r = 0")
  case True
  from assms have "0 < n" by (simp add: valid_setup_def)
  then show ?thesis by (simp add: sched_bal_linear [OF assms True])
next
  case False
  then show ?thesis by (simp add: sched_bal_annuity [OF assms])
qed

lemma sched_bal_nonneg:
  assumes "valid_setup p n pwf r base" "j \<le> n"
  shows "0 \<le> sched_bal p pwf r base j"
proof (cases "flat_interest p \<or> r = 0")
  case True
  from assms have n: "0 < n" and pwf: "0 \<le> pwf" by (simp_all add: valid_setup_def)
  have eq: "sched_bal p pwf r base j = pwf * ((of_nat n - of_nat j) / of_nat n)"
    using n by (simp add: sched_bal_linear [OF assms(1) True] field_simps)
  have "(0::rat) \<le> (of_nat n - of_nat j) / of_nat n"
    using assms(2) by simp
  with pwf show ?thesis unfolding eq by (rule mult_nonneg_nonneg)
next
  case False
  from assms False have r: "0 < r" and n: "0 < n" and pwf: "0 \<le> pwf"
    by (auto simp add: valid_setup_def)
  have "(1 + r) ^ j \<le> (1 + r) ^ n"
    using r assms(2) by (simp add: power_increasing)
  then have "0 \<le> pwf * ((1 + r) ^ n - (1 + r) ^ j)" using pwf by simp
  then show ?thesis
    using False annuity_denominator_pos [OF r n]
    by (simp add: sched_bal_annuity [OF assms(1)])
qed

lemma sched_bal_pos:
  assumes "valid_setup p n pwf r base" "j < n" "0 < pwf"
  shows "0 < sched_bal p pwf r base j"
proof (cases "flat_interest p \<or> r = 0")
  case True
  from assms have n: "0 < n" by (simp_all add: valid_setup_def)
  have eq: "sched_bal p pwf r base j = pwf * ((of_nat n - of_nat j) / of_nat n)"
    using n by (simp add: sched_bal_linear [OF assms(1) True] field_simps)
  have "(0::rat) < (of_nat n - of_nat j) / of_nat n"
    using assms(2) n by simp
  with assms(3) show ?thesis unfolding eq by (rule mult_pos_pos)
next
  case False
  from assms False have r: "0 < r" and n: "0 < n"
    by (auto simp add: valid_setup_def)
  have "(1 + r) ^ j < (1 + r) ^ n"
    using r assms(2) by (simp add: power_strict_increasing)
  then have "0 < pwf * ((1 + r) ^ n - (1 + r) ^ j)" using assms(3) by simp
  then show ?thesis
    using False annuity_denominator_pos [OF r n]
    by (simp add: sched_bal_annuity [OF assms(1)])
qed

text \<open>The scheduled payment covers the interest on any balance up to the principal.\<close>

lemma base_covers_interest:
  assumes "valid_setup p n pwf r base" "b \<le> pwf"
  shows "(if flat_interest p then pwf * r else b * r) \<le> base"
proof -
  from assms have n: "0 < n" and pwf: "0 \<le> pwf" and r: "0 \<le> r" by (simp_all add: valid_setup_def)
  show ?thesis
  proof (cases "flat_interest p")
    case True
    with assms have "base = pwf / of_nat n + pwf * r" by (simp add: valid_setup_def)
    moreover have "0 \<le> pwf / of_nat n" using pwf by simp
    ultimately show ?thesis using True by simp
  next
    case False
    show ?thesis
    proof (cases "r = 0")
      case True
      with False assms have "base = pwf / of_nat n" by (simp add: valid_setup_def)
      with True False pwf show ?thesis by simp
    next
      case nz: False
      with r have r': "0 < r" by simp
      define D where "D = (1 + r) ^ n - 1"
      have D: "0 < D" using annuity_denominator_pos [OF r' n] by (simp add: D_def)
      from False nz assms have "base = pwf * r * (D + 1) / D"
        by (simp add: valid_setup_def D_def)
      then have "base = pwf * r + pwf * r / D" using D by (simp add: field_simps)
      moreover have "0 \<le> pwf * r / D" using pwf r D by simp
      moreover have "b * r \<le> pwf * r" using assms(2) r by (simp add: mult_right_mono)
      ultimately show ?thesis using False by simp
    qed
  qed
qed

section \<open>Invariants of a run\<close>



text \<open>With extra payments the balance stays below the scheduled one, by the extras paid.\<close>

lemma follows_loop_upper:
  assumes "valid_setup p n pwf r base"
  shows "follows_loop p ppy pwf r base k d bal cum rows \<Longrightarrow>
         bal \<le> sched_bal p pwf r base j - of_nat j * extra_per_period p \<Longrightarrow> i < length rows \<Longrightarrow>
         row_bal (rows ! i)
           \<le> max 0 (sched_bal p pwf r base (j + i + 1) - of_nat (j + i + 1) * extra_per_period p)"
proof (induction rows arbitrary: k d bal cum i j)
  case Nil
  then show ?case by simp
next
  case (Cons w ws)
  let ?e = "extra_per_period p"
  from assms have e: "0 \<le> ?e" and r: "0 \<le> r" by (simp_all add: valid_setup_def)
  from Cons.prems(1) have w: "w = loop_body p pwf r base k d bal cum"
    and rest: "follows_loop p ppy pwf r base (Suc k) (d + step_days ppy) (row_bal w) (row_cumulative w) ws"
    and cont: "ws = [] \<or> 0 < row_bal w"
    by auto
  have je: "0 \<le> of_nat j * ?e" using e by simp
  have "sched_next p pwf r base bal \<le> sched_next p pwf r base (sched_bal p pwf r base j - of_nat j * ?e)"
    using r Cons.prems(2) by (rule sched_next_mono)
  also have "\<dots> \<le> sched_next p pwf r base (sched_bal p pwf r base j) - of_nat j * ?e"
    using r je by (rule sched_next_shift)
  finally have "sched_next p pwf r base bal - ?e \<le> sched_bal p pwf r base (Suc j) - of_nat (Suc j) * ?e"
    by (simp add: sched_bal_Suc algebra_simps)
  then have step: "row_bal w \<le> max 0 (sched_bal p pwf r base (Suc j) - of_nat (Suc j) * ?e)"
    unfolding w loop_body_bal_next [OF e] by (simp add: max_def)
  show ?case
  proof (cases i)
    case 0
    with step show ?thesis by simp
  next
    case (Suc i')
    with Cons.prems have i': "i' < length ws" by simp
    then have "ws \<noteq> []" by auto
    with cont have "0 < row_bal w" by simp
    with step have "row_bal w \<le> sched_bal p pwf r base (Suc j) - of_nat (Suc j) * ?e"
      by (simp add: max_def split: if_splits)
    from Cons.IH [OF rest this i'] Suc show ?thesis by simp
  qed
qed

lemma follows_loop_below_schedule:
  assumes "valid_setup p n pwf r base" "follows_loop p ppy pwf r base k d pwf cum rows"
    "i < length rows" "i < n"
  shows "row_bal (rows ! i) \<le> sched_bal p pwf r base (Suc i)"
proof -
  from assms(1) have e: "0 \<le> extra_per_period p" by (simp add: valid_setup_def)
  have "row_bal (rows ! i)
          \<le> max 0 (sched_bal p pwf r base (0 + i + 1) - of_nat (0 + i + 1) * extra_per_period p)"
    using assms(1,2) _ assms(3) by (rule follows_loop_upper) (simp add: sched_bal_0)
  moreover have "0 \<le> sched_bal p pwf r base (Suc i)"
    using assms(1) by (rule sched_bal_nonneg) (use assms(4) in simp)
  moreover have "0 \<le> of_nat (Suc i) * extra_per_period p" using e by simp
  ultimately show ?thesis by (simp add: max_def split: if_splits)
qed

text \<open>Without extra payments the balance follows the schedule exactly.\<close>

lemma follows_loop_exact:
  assumes "valid_setup p n pwf r base" "extra_per_period p = 0"
  shows "follows_loop p ppy pwf r base k d bal cum rows \<Longrightarrow> bal = sched_bal p pwf r base j \<Longrightarrow>
         j + length rows \<le> n \<Longrightarrow> i < length rows \<Longrightarrow>
         row_bal (rows ! i) = sched_bal p pwf r base (j + i + 1)"
proof (induction rows arbitrary: k d bal cum i j)
  case Nil
  then show ?case by simp
next
  case (Cons w ws)
  from Cons.prems(1) have w: "w = loop_body p pwf r base k d bal cum"
    and rest: "follows_loop p ppy pwf r base (Suc k) (d + step_days ppy) (row_bal w) (row_cumulative w) ws"
    by auto
  have "0 \<le> sched_bal p pwf r base (Suc j)"
    using assms(1) by (rule sched_bal_nonneg) (use Cons.prems(3) in simp)
  then have step: "row_bal w = sched_bal p pwf r base (Suc j)"
    unfolding w using assms(2) Cons.prems(2)
    by (simp add: loop_body_bal_next sched_bal_Suc)
  show ?case
  proof (cases i)
    case 0
    with step show ?thesis by simp
  next
    case (Suc i')
    with Cons.prems have "i' < length ws" "Suc j + length ws \<le> n" by simp_all
    from Cons.IH [OF rest step this(2,1)] Suc show ?thesis by simp
  qed
qed

section \<open>From the parameters to the loop\<close>

lemma periods_per_year_cases:
  assumes "periods_per_year_of c = Inr ppy"
  shows "ppy = 12 \<or> ppy = 4 \<or> ppy = 1"
  using assms by (auto simp add: periods_per_year_of_def split: if_splits)

lemma total_periods_pos: "0 < total_periods yrs ppy"
  by (simp add: total_periods_def)

lemma total_periods_valid:
  assumes "1 \<le> yrs" "0 < ppy"
  shows "(of_nat (total_periods yrs ppy) :: rat) = of_int yrs * of_int ppy"
proof -
  have "0 < yrs * ppy" using assms by simp
  then have "int (total_periods yrs ppy) = yrs * ppy"
    by (simp add: total_periods_def)
  then have "(of_int (int (total_periods yrs ppy)) :: rat) = of_int (yrs * ppy)" by simp
  then show ?thesis by simp
qed

lemma schedule_rowsD:
  assumes "schedule_rows p = Inr rows"
  obtains ppy base where
    "periods_per_year_of (compounding p) = Inr ppy"
    "base_payment_of (\<lambda>x. x) p (total_periods (years p) ppy) (principal_with_fees_of (\<lambda>x. x) p)
       (period_rate_of (\<lambda>x. x) p ppy) = Inr base"
    "amortize p ppy (principal_with_fees_of (\<lambda>x. x) p) (period_rate_of (\<lambda>x. x) p ppy) base
       (total_periods (years p) ppy) 1 (start_date p) (principal_with_fees_of (\<lambda>x. x) p) 0 = Inr rows"
  using assms by (auto simp add: schedule_rows_def Let_def split: sum.splits)

lemma compute_scheduleD:
  assumes "compute_schedule p = Inr (df, s)"
  obtains rows where "schedule_rows p = Inr rows" "df = map sched_entry rows"
    "s = summarize df (principal_with_fees_of (\<lambda>x. x) p)"
  using assms by (auto simp add: compute_schedule_def Let_def split: sum.splits)

lemma principal_with_fees_nonneg:
  assumes "0 \<le> principal p" "0 \<le> fees_flat p" "0 \<le> fees_pct p"
  shows "0 \<le> principal_with_fees_of (\<lambda>x. x) p"
  using assms by (simp add: principal_with_fees_of_def)

lemma valid_setupI:
  assumes par: "0 \<le> principal p" "0 \<le> fees_flat p" "0 \<le> fees_pct p" "0 \<le> annual_rate_pct p"
      "1 \<le> years p" "0 \<le> extra_per_period p"
    and ppy: "periods_per_year_of (compounding p) = Inr ppy"
    and base: "base_payment_of (\<lambda>x. x) p (total_periods (years p) ppy) (principal_with_fees_of (\<lambda>x. x) p)
       (period_rate_of (\<lambda>x. x) p ppy) = Inr base"
  shows "valid_setup p (total_periods (years p) ppy) (principal_with_fees_of (\<lambda>x. x) p)
           (period_rate_of (\<lambda>x. x) p ppy) base"
proof -
  let ?n = "total_periods (years p) ppy"
  let ?pwf = "principal_with_fees_of (\<lambda>x. x) p"
  let ?r = "period_rate_of (\<lambda>x. x) p ppy"
  have ppy0: "0 < ppy" using periods_per_year_cases [OF ppy] by auto
  have n: "0 < ?n" by (rule total_periods_pos)
  have n_eq: "(of_nat ?n :: rat) = of_int (years p) * of_int ppy"
    using par(5) ppy0 by (rule total_periods_valid)
  have pwf: "0 \<le> ?pwf" using par(1-3) by (rule principal_with_fees_nonneg)
  have r: "0 \<le> ?r" using par(4) ppy0 by (simp add: period_rate_of_def)
  have form: "if flat_interest p then base = ?pwf / of_nat ?n + ?pwf * ?r
      else if ?r = 0 then base = ?pwf / of_nat ?n
      else base = ?pwf * ?r * (1 + ?r) ^ ?n / ((1 + ?r) ^ ?n - 1)"
  proof (cases "flat_interest p")
    case True
    have y: "(of_int (years p) :: rat) \<noteq> 0" "(of_int ppy :: rat) \<noteq> 0"
      using par(5) ppy0 by simp_all
    from True base have "base = (?pwf + ?pwf * (annual_rate_pct p / 100) * of_int (years p)) / of_nat ?n"
      using n by (simp add: base_payment_of_def fdiv_def Let_def)
    also have "\<dots> = ?pwf / of_nat ?n + ?pwf * ?r"
      unfolding n_eq period_rate_of_def using y by (simp add: field_simps)
    finally show ?thesis using True by simp
  next
    case False
    with base n show ?thesis
      by (auto simp add: base_payment_of_def fdiv_def split: if_splits)
  qed
  from n pwf r par(6) form show ?thesis unfolding valid_setup_def by blast
qed

section \<open>Number of records and early payoff\<close>

text \<open>
  C4. A call that returns produces at least one record and at most \<open>total_periods\<close>
  of them, where \<open>total_periods\<close> is \<^verbatim>\<open>max(1, years * periods_per_year)\<close>.
  The loop stops as soon as the running balance is zero: every row but the last one leaves
  a positive balance, and a run shorter than \<open>total_periods\<close> ends on a balance that is
  not positive.
\<close>

theorem record_count_and_early_stop:
  assumes "compute_schedule p = Inr (df, s)"
    and "periods_per_year_of (compounding p) = Inr ppy"
  shows "1 \<le> length df \<and> length df \<le> total_periods (years p) ppy \<and>
         (\<exists>rows. schedule_rows p = Inr rows \<and> df = map sched_entry rows \<and>
            (\<forall>i. Suc i < length rows \<longrightarrow> 0 < row_bal (rows ! i)) \<and>
            (length rows < total_periods (years p) ppy \<longrightarrow> row_bal (last rows) \<le> 0))"
proof -
  from assms(1) obtain rows where rows: "schedule_rows p = Inr rows" and df: "df = map sched_entry rows"
    by (rule compute_scheduleD)
  from rows obtain ppy' base where ppy': "periods_per_year_of (compounding p) = Inr ppy'"
    and run: "amortize p ppy' (principal_with_fees_of (\<lambda>x. x) p) (period_rate_of (\<lambda>x. x) p ppy') base
       (total_periods (years p) ppy') 1 (start_date p) (principal_with_fees_of (\<lambda>x. x) p) 0 = Inr rows"
    by (rule schedule_rowsD)
  from ppy' assms(2) have [simp]: "ppy' = ppy" by simp
  note f = amortize_follows [OF run]
  have n: "0 < total_periods (years p) ppy" by (rule total_periods_pos)
  from f n have "rows \<noteq> []" by simp
  then have "1 \<le> length rows" by (cases rows) simp_all
  moreover from f have "length rows \<le> total_periods (years p) ppy" by simp
  moreover have "\<forall>i. Suc i < length rows \<longrightarrow> 0 < row_bal (rows ! i)"
    using f follows_loop_positive by blast
  moreover from f have "length rows < total_periods (years p) ppy \<longrightarrow> row_bal (last rows) \<le> 0"
    by simp
  ultimately show ?thesis using rows df by auto
qed

theorem record_count_and_early_stop_witness:
  "\<exists>df s. compute_schedule (plain_loan 100 0 2 ''Yearly'' False 50) = Inr (df, s) \<and>
     periods_per_year_of (compounding (plain_loan 100 0 2 ''Yearly'' False 50)) = Inr 1 \<and>
     length df = 1 \<and> 1 \<le> length df \<and>
     length df \<le> total_periods (years (plain_loan 100 0 2 ''Yearly'' False 50)) 1"
proof -
  let ?p = "plain_loan 100 0 2 ''Yearly'' False 50"
  have "\<not> isl (compute_schedule ?p)" by code_simp
  then obtain df s where run: "compute_schedule ?p = Inr (df, s)"
    by (cases "compute_schedule ?p") auto
  have ppy: "periods_per_year_of (compounding ?p) = Inr 1" by code_simp
  have len: "length (fst (projr (compute_schedule ?p))) = 1" by code_simp
  from record_count_and_early_stop [OF run ppy] run ppy len show ?thesis by simp
qed

section \<open>The scheduled payment\<close>

lemma periods_per_year_spec:
  assumes "periods_per_year_of (compounding p) = Inr ppy"
  shows "spec_periods_per_year p = ppy"
  using assms by (auto simp add: periods_per_year_of_def spec_periods_per_year_def split: if_splits)

lemma follows_loop_base_payment:
  assumes "follows_loop p ppy pwf r base k d bal cum rows" "w \<in> set rows"
  shows "row_base_payment w = base"
proof -
  from assms(2) obtain i where "i < length rows" "rows ! i = w" by (auto simp add: in_set_conv_nth)
  with follows_loop_fields [OF assms(1), of i] show ?thesis by auto
qed

text \<open>
  C6. The scheduled payment that the code computes is the one the specification selects:
  the flat formula when \<open>flat_interest\<close> holds, the straight-line payment when the
  period rate is zero, and the annuity formula otherwise. Every row of the schedule
  carries this payment.
\<close>

theorem base_payment_selection:
  assumes "periods_per_year_of (compounding p) = Inr ppy"
    and "base_payment_of (\<lambda>x. x) p (total_periods (years p) ppy) (principal_with_fees_of (\<lambda>x. x) p)
           (period_rate_of (\<lambda>x. x) p ppy) = Inr b"
  shows "b = spec_base_payment p \<and>
         (\<forall>rows. schedule_rows p = Inr rows \<longrightarrow> (\<forall>w \<in> set rows. row_base_payment w = spec_base_payment p))"
proof -
  have ppy: "spec_periods_per_year p = ppy" using assms(1) by (rule periods_per_year_spec)
  have n: "int (total_periods (years p) ppy) = spec_total_periods p"
    by (simp add: total_periods_def spec_total_periods_def ppy)
  then have n': "nat (spec_total_periods p) = total_periods (years p) ppy" by simp
  have n'': "(of_nat (total_periods (years p) ppy) :: rat) = of_int (spec_total_periods p)"
    using n by (metis of_int_of_nat_eq)
  have n0: "(of_int (spec_total_periods p) :: rat) \<noteq> 0"
    by (simp add: spec_total_periods_def)
  have pwf: "principal_with_fees_of (\<lambda>x. x) p = spec_adjusted_principal p"
    by (simp add: principal_with_fees_of_def spec_adjusted_principal_def)
  have r: "period_rate_of (\<lambda>x. x) p ppy = spec_period_rate p"
    by (simp add: period_rate_of_def spec_period_rate_def ppy)
  have b: "b = spec_base_payment p"
    using assms(2) n0 unfolding pwf r n'' spec_base_payment_def n'
    by (auto simp add: base_payment_of_def fdiv_def Let_def n'' split: if_splits)
  have "row_base_payment w = spec_base_payment p" if "schedule_rows p = Inr rows" "w \<in> set rows" for rows w
  proof -
    from that(1) obtain ppy' base where ppy': "periods_per_year_of (compounding p) = Inr ppy'"
      and base: "base_payment_of (\<lambda>x. x) p (total_periods (years p) ppy') (principal_with_fees_of (\<lambda>x. x) p)
           (period_rate_of (\<lambda>x. x) p ppy') = Inr base"
      and run: "amortize p ppy' (principal_with_fees_of (\<lambda>x. x) p) (period_rate_of (\<lambda>x. x) p ppy') base
         (total_periods (years p) ppy') 1 (start_date p) (principal_with_fees_of (\<lambda>x. x) p) 0 = Inr rows"
      by (rule schedule_rowsD)
    from ppy' assms(1) have "ppy' = ppy" by simp
    with base assms(2) have "base = b" by simp
    moreover from amortize_follows [OF run] that(2) have "row_base_payment w = base"
      using follows_loop_base_payment by blast
    ultimately show ?thesis using b by simp
  qed
  with b show ?thesis by blast
qed

theorem base_payment_selection_witness:
  "\<exists>b. periods_per_year_of (compounding (plain_loan 1200 12 1 ''Quarterly'' False 0)) = Inr 4 \<and>
     base_payment_of (\<lambda>x. x) (plain_loan 1200 12 1 ''Quarterly'' False 0)
       (total_periods (years (plain_loan 1200 12 1 ''Quarterly'' False 0)) 4)
       (principal_with_fees_of (\<lambda>x. x) (plain_loan 1200 12 1 ''Quarterly'' False 0))
       (period_rate_of (\<lambda>x. x) (plain_loan 1200 12 1 ''Quarterly'' False 0) 4) = Inr b \<and>
     b = spec_base_payment (plain_loan 1200 12 1 ''Quarterly'' False 0)"
proof -
  let ?p = "plain_loan 1200 12 1 ''Quarterly'' False 0"
  have ppy: "periods_per_year_of (compounding ?p) = Inr 4" by code_simp
  have "\<not> isl (base_payment_of (\<lambda>x. x) ?p (total_periods (years ?p) 4)
       (principal_with_fees_of (\<lambda>x. x) ?p) (period_rate_of (\<lambda>x. x) ?p 4))" by code_simp
  then obtain b where b: "base_payment_of (\<lambda>x. x) ?p (total_periods (years ?p) 4)
       (principal_with_fees_of (\<lambda>x. x) ?p) (period_rate_of (\<lambda>x. x) ?p 4) = Inr b"
    by (cases "base_payment_of (\<lambda>x. x) ?p (total_periods (years ?p) 4)
       (principal_with_fees_of (\<lambda>x. x) ?p) (period_rate_of (\<lambda>x. x) ?p 4)") auto
  from base_payment_selection [OF ppy b] ppy b show ?thesis by blast
qed

section \<open>The run of a call, and evaluation\<close>

text \<open>Evaluating a call on concrete parameters with the simplifier.\<close>

lemma floor_numeral_fraction:
  "\<lfloor>(numeral a :: rat) / numeral b\<rfloor> = numeral a div numeral b"
  "\<lfloor>- (numeral a :: rat) / numeral b\<rfloor> = - numeral a div numeral b"
  using floor_divide_of_int_eq [of "numeral a" "numeral b", where ?'a = rat]
    floor_divide_of_int_eq [of "- numeral a" "numeral b", where ?'a = rat] by simp_all

lemma amortize_unfold:
  assumes "0 < m"
  shows "amortize p ppy pwf r base m k d bal cumulative =
     (let row = loop_body p pwf r base k d bal cumulative
      in case date_add d (step_days ppy) of
           Inl e \<Rightarrow> Inl e
         | Inr d' \<Rightarrow>
             if row_bal row \<le> 0 then Inr [row]
             else (case amortize p ppy pwf r base (m - 1) (Suc k) d' (row_bal row) (row_cumulative row) of
                     Inl e \<Rightarrow> Inl e
                   | Inr rows \<Rightarrow> Inr (row # rows)))"
proof -
  from assms obtain m' where m: "m = Suc m'" by (cases m) auto
  show ?thesis unfolding m by (simp only: amortize.simps diff_Suc_1)
qed

lemmas eval_simps = compute_schedule_def schedule_rows_def periods_per_year_of_def total_periods_def
    principal_with_fees_of_def period_rate_of_def base_payment_of_def fdiv_def Let_def loop_body_def date_add_def step_days_def
    sched_entry_def summarize_def round2_def round_half_even_def amortize_unfold floor_numeral_fraction
    plain_loan_def



text \<open>Without extra payments a positive principal is repaid in the last period, not before.\<close>

lemma full_length_without_extra:
  assumes "valid_setup p n pwf r base" "extra_per_period p = 0" "0 < pwf"
    and "amortize p ppy pwf r base n k d pwf cum = Inr rows"
  shows "length rows = n"
proof (rule ccontr)
  assume neq: "length rows \<noteq> n"
  note f = amortize_follows [OF assms(4)]
  from assms(1) have "0 < n" by (simp add: valid_setup_def)
  with f have ne: "rows \<noteq> []" by simp
  from f neq have short: "length rows < n" by simp
  with f have "row_bal (last rows) \<le> 0" by simp
  moreover have "row_bal (rows ! (length rows - 1)) = sched_bal p pwf r base (0 + (length rows - 1) + 1)"
    using assms(1,2) _ _ _ _
  proof (rule follows_loop_exact)
    show "follows_loop p ppy pwf r base k d pwf cum rows" using f by simp
    show "pwf = sched_bal p pwf r base 0" by (simp add: sched_bal_0)
    show "0 + length rows \<le> n" using short by simp
    show "length rows - 1 < length rows" using ne by simp
  qed
  moreover have "0 < sched_bal p pwf r base (length rows)"
    using assms(1) short assms(3) by (rule sched_bal_pos)
  ultimately show False using ne by (simp add: last_conv_nth)
qed

lemma follows_loop_interest:
  assumes "follows_loop p ppy pwf r base k d bal cum rows" "i < length rows"
  shows "row_interest (rows ! i) = (if flat_interest p then pwf * r else bal_before bal rows i * r)"
    and "row_principal_comp (rows ! i)
           = min (base - row_interest (rows ! i)) (bal_before bal rows i)"
proof -
  from follows_loop_nth [OF assms] obtain k' d' cum'
    where eq: "rows ! i = loop_body p pwf r base k' d' (bal_before bal rows i) cum'" by blast
  show "row_interest (rows ! i) = (if flat_interest p then pwf * r else bal_before bal rows i * r)"
    unfolding eq by (simp add: loop_body_fields)
  show "row_principal_comp (rows ! i) = min (base - row_interest (rows ! i)) (bal_before bal rows i)"
    unfolding eq by (simp add: loop_body_fields)
qed

lemma sum_list_constant: "(\<And>x. x \<in> set xs \<Longrightarrow> x = c) \<Longrightarrow> sum_list xs = of_nat (length xs) * (c::rat)"
  by (induction xs) (simp_all add: algebra_simps)

lemma summarize_nonempty:
  assumes "df \<noteq> []"
  shows "Total_Interest (summarize df pwf) = round2 (sum_list (map Interest df))"
    and "Total_Extra (summarize df pwf) = round2 (sum_list (map Extra df))"
    and "Total_Insurance (summarize df pwf) = round2 (sum_list (map Insurance df))"
    and "Total_Paid (summarize df pwf)
           = round2 (sum_list (map Payment df) + sum_list (map Extra df) + sum_list (map Insurance df))"
    and "Tenure (summarize df pwf) = length df"
    and "EMI_Payment (summarize df pwf) = round2 (Payment (hd df))"
  using assms by (simp_all add: summarize_def)

lemma summarize_tenure: "Tenure (summarize df pwf) = length df"
  by (simp add: summarize_def)

lemma sched_entry_fields:
  "Payment (sched_entry w) = round2 (row_base_payment w)"
  "Principal (sched_entry w) = round2 (row_principal_comp w)"
  "Interest (sched_entry w) = round2 (row_interest w)"
  "Extra (sched_entry w) = round2 (row_extra w)"
  "Insurance (sched_entry w) = round2 (row_insurance w)"
  "Balance (sched_entry w) = round2 (row_bal w)"
  "Cumulative_Paid (sched_entry w) = round2 (row_cumulative w)"
  "Period (sched_entry w) = row_k w"
  "Date (sched_entry w) = row_d w"
  by (simp_all add: sched_entry_def)

text \<open>What a returning call consists of.\<close>

lemma compute_schedule_run:
  assumes "compute_schedule p = Inr (df, s)"
  obtains ppy base rows where
    "periods_per_year_of (compounding p) = Inr ppy"
    "base_payment_of (\<lambda>x. x) p (total_periods (years p) ppy) (principal_with_fees_of (\<lambda>x. x) p)
       (period_rate_of (\<lambda>x. x) p ppy) = Inr base"
    "amortize p ppy (principal_with_fees_of (\<lambda>x. x) p) (period_rate_of (\<lambda>x. x) p ppy) base
       (total_periods (years p) ppy) 1 (start_date p) (principal_with_fees_of (\<lambda>x. x) p) 0 = Inr rows"
    "schedule_rows p = Inr rows"
    "df = map sched_entry rows" "rows \<noteq> []"
    "s = summarize df (principal_with_fees_of (\<lambda>x. x) p)"
proof -
  from assms obtain rows where rows: "schedule_rows p = Inr rows" and df: "df = map sched_entry rows"
    and s: "s = summarize df (principal_with_fees_of (\<lambda>x. x) p)"
    by (rule compute_scheduleD)
  from rows obtain ppy base where ppy: "periods_per_year_of (compounding p) = Inr ppy"
    and base: "base_payment_of (\<lambda>x. x) p (total_periods (years p) ppy) (principal_with_fees_of (\<lambda>x. x) p)
       (period_rate_of (\<lambda>x. x) p ppy) = Inr base"
    and run: "amortize p ppy (principal_with_fees_of (\<lambda>x. x) p) (period_rate_of (\<lambda>x. x) p ppy) base
       (total_periods (years p) ppy) 1 (start_date p) (principal_with_fees_of (\<lambda>x. x) p) 0 = Inr rows"
    by (rule schedule_rowsD)
  have ne: "rows \<noteq> []" using amortize_follows [OF run] total_periods_pos [of "years p" ppy] by simp
  from ppy base run rows df ne s show ?thesis by (rule that)
qed

section \<open>The flat-interest scenario\<close>

text \<open>
  C2, as stated, fails: in the flat scenario started on 2024-01-01 the records hold the
  interest 833.33, which is not 100000 * 0.10 / 12, and the total interest of the summary
  is 9999.96, not 10000.
\<close>

theorem flat_scenario_rounded_interest_counterexample:
  "\<not> isl (compute_schedule (flat_scenario 738886)) \<and>
   Interest (hd (fst (projr (compute_schedule (flat_scenario 738886))))) = 83333 / 100 \<and>
   (83333 / 100 :: rat) \<noteq> 100000 * (10 / 100) / 12 \<and>
   Total_Interest (snd (projr (compute_schedule (flat_scenario 738886)))) = 999996 / 100 \<and>
   (999996 / 100 :: rat) \<noteq> 10000"
  by (simp add: eval_simps flat_scenario_def)

text \<open>
  C2, amended. In the flat scenario, from any start date, a call that returns has twelve
  records; the interest of every period is 100000 * 0.10 / 12 before rounding, every
  record holds its rounding to two decimals, 833.33, and the total interest of the
  summary is the sum of the rounded fields, 9999.96.
\<close>

theorem flat_scenario_rounded_interest:
  assumes "compute_schedule (flat_scenario d) = Inr (df, s)"
  shows "length df = 12 \<and> (\<forall>rec \<in> set df. Interest rec = round2 (100000 * (10 / 100) / 12)) \<and>
         round2 (100000 * (10 / 100) / 12) = 83333 / 100 \<and>
         Total_Interest s = 999996 / 100 \<and>
         (\<exists>rows. schedule_rows (flat_scenario d) = Inr rows \<and> df = map sched_entry rows \<and>
            (\<forall>w \<in> set rows. row_interest w = 100000 * (10 / 100) / 12))"
proof -
  let ?p = "flat_scenario d"
  from assms obtain ppy base rows where
    ppy: "periods_per_year_of (compounding ?p) = Inr ppy"
    and base: "base_payment_of (\<lambda>x. x) ?p (total_periods (years ?p) ppy) (principal_with_fees_of (\<lambda>x. x) ?p)
       (period_rate_of (\<lambda>x. x) ?p ppy) = Inr base"
    and run: "amortize ?p ppy (principal_with_fees_of (\<lambda>x. x) ?p) (period_rate_of (\<lambda>x. x) ?p ppy) base
       (total_periods (years ?p) ppy) 1 (start_date ?p) (principal_with_fees_of (\<lambda>x. x) ?p) 0 = Inr rows"
    and rows: "schedule_rows ?p = Inr rows"
    and df: "df = map sched_entry rows" and ne: "rows \<noteq> []"
    and s: "s = summarize df (principal_with_fees_of (\<lambda>x. x) ?p)"
    by (rule compute_schedule_run)
  have ppy12: "ppy = 12"
    using ppy by (simp add: flat_scenario_def plain_loan_def periods_per_year_of_def)
  have n: "total_periods (years ?p) ppy = 12"
    by (simp add: ppy12 flat_scenario_def plain_loan_def total_periods_def)
  have pwf: "principal_with_fees_of (\<lambda>x. x) ?p = 100000"
    by (simp add: flat_scenario_def plain_loan_def principal_with_fees_of_def)
  have r: "period_rate_of (\<lambda>x. x) ?p ppy = 1 / 120"
    by (simp add: ppy12 flat_scenario_def plain_loan_def period_rate_of_def)
  have flat: "flat_interest ?p" and extra: "extra_per_period ?p = 0"
    by (simp_all add: flat_scenario_def plain_loan_def)
  have valid: "valid_setup ?p (total_periods (years ?p) ppy) (principal_with_fees_of (\<lambda>x. x) ?p)
     (period_rate_of (\<lambda>x. x) ?p ppy) base"
    by (rule valid_setupI [OF _ _ _ _ _ _ ppy base]) (simp_all add: flat_scenario_def plain_loan_def)
  have len: "length rows = 12"
    using full_length_without_extra [OF valid extra _ run] by (simp add: pwf n)
  from amortize_follows [OF run]
  have f: "follows_loop ?p ppy (principal_with_fees_of (\<lambda>x. x) ?p) (period_rate_of (\<lambda>x. x) ?p ppy) base
       1 (start_date ?p) (principal_with_fees_of (\<lambda>x. x) ?p) 0 rows" by simp
  have interest: "row_interest w = 100000 * (10 / 100) / 12" if "w \<in> set rows" for w
  proof -
    from that obtain i where i: "i < length rows" and w: "rows ! i = w"
      by (auto simp add: in_set_conv_nth)
    from follows_loop_interest(1) [OF f i] flat show ?thesis
      by (simp add: pwf r w)
  qed
  have rounded: "round2 (100000 * (10 / 100) / 12) = 83333 / 100"
    by (simp add: round2_def round_half_even_def floor_numeral_fraction)
  have rec: "Interest rec = round2 (100000 * (10 / 100) / 12)" if "rec \<in> set df" for rec
  proof -
    from that df obtain w where w: "w \<in> set rows" and "rec = sched_entry w" by auto
    then show ?thesis by (simp only: sched_entry_fields interest [OF w])
  qed
  have "sum_list (map Interest df) = of_nat (length (map Interest df)) * (83333 / 100)"
    by (rule sum_list_constant) (use rec rounded in auto)
  also have "\<dots> = 12 * (83333 / 100)" using len df by simp
  finally have sum: "sum_list (map Interest df) = 12 * (83333 / 100)" .
  have "df \<noteq> []" using ne df by simp
  then have "Total_Interest s = round2 (sum_list (map Interest df))"
    unfolding s by (rule summarize_nonempty(1))
  also have "\<dots> = round2 (12 * (83333 / 100))" by (simp only: sum)
  also have "\<dots> = 999996 / 100"
    by (simp add: round2_def round_half_even_def floor_numeral_fraction)
  finally have total: "Total_Interest s = 999996 / 100" .
  from len df rec rounded total rows interest show ?thesis by auto
qed

theorem flat_scenario_rounded_interest_witness:
  "\<exists>df s. compute_schedule (flat_scenario 738886) = Inr (df, s) \<and> length df = 12 \<and>
      Total_Interest s = 999996 / 100"
proof -
  have "\<not> isl (compute_schedule (flat_scenario 738886))"
    by (simp add: eval_simps flat_scenario_def)
  then obtain df s where run: "compute_schedule (flat_scenario 738886) = Inr (df, s)"
    by (cases "compute_schedule (flat_scenario 738886)") auto
  from flat_scenario_rounded_interest [OF run] run show ?thesis by blast
qed

section \<open>Prefixes of a run and the columns of the data frame\<close>




lemma sched_entry_cents:
  "round2 (Payment (sched_entry w)) = Payment (sched_entry w)"
  "round2 (Principal (sched_entry w)) = Principal (sched_entry w)"
  "round2 (Interest (sched_entry w)) = Interest (sched_entry w)"
  "round2 (Extra (sched_entry w)) = Extra (sched_entry w)"
  "round2 (Insurance (sched_entry w)) = Insurance (sched_entry w)"
  "round2 (Balance (sched_entry w)) = Balance (sched_entry w)"
  "round2 (Cumulative_Paid (sched_entry w)) = Cumulative_Paid (sched_entry w)"
  by (simp_all add: sched_entry_fields round2_idem)

lemma column_sum_cents:
  assumes "\<And>w. round2 (f (sched_entry w)) = f (sched_entry w)"
  shows "round2 (sum_list (map f (map sched_entry rows))) = sum_list (map f (map sched_entry rows))"
  by (rule round2_sum_list_fixed) (use assms in auto)

text \<open>The totals of the summary are the sums of the rounded columns.\<close>

lemma summarize_totals:
  assumes "rows \<noteq> []" "df = map sched_entry rows"
  shows "Total_Interest (summarize df pwf) = sum_list (map Interest df)"
    and "Total_Extra (summarize df pwf) = sum_list (map Extra df)"
    and "Total_Insurance (summarize df pwf) = sum_list (map Insurance df)"
    and "Total_Paid (summarize df pwf)
           = sum_list (map Payment df) + sum_list (map Extra df) + sum_list (map Insurance df)"
proof -
  have ne: "df \<noteq> []" using assms by simp
  have i: "round2 (sum_list (map Interest df)) = sum_list (map Interest df)"
    unfolding assms(2) by (rule column_sum_cents) (rule sched_entry_cents)
  have e: "round2 (sum_list (map Extra df)) = sum_list (map Extra df)"
    unfolding assms(2) by (rule column_sum_cents) (rule sched_entry_cents)
  have s: "round2 (sum_list (map Insurance df)) = sum_list (map Insurance df)"
    unfolding assms(2) by (rule column_sum_cents) (rule sched_entry_cents)
  have y: "round2 (sum_list (map Payment df)) = sum_list (map Payment df)"
    unfolding assms(2) by (rule column_sum_cents) (rule sched_entry_cents)
  show "Total_Interest (summarize df pwf) = sum_list (map Interest df)"
    using ne i by (simp add: summarize_nonempty)
  show "Total_Extra (summarize df pwf) = sum_list (map Extra df)"
    using ne e by (simp add: summarize_nonempty)
  show "Total_Insurance (summarize df pwf) = sum_list (map Insurance df)"
    using ne s by (simp add: summarize_nonempty)
  have "round2 (sum_list (map Payment df) + sum_list (map Extra df) + sum_list (map Insurance df))
          = sum_list (map Payment df) + sum_list (map Extra df) + sum_list (map Insurance df)"
    by (intro round2_fixed_add y e s)
  then show "Total_Paid (summarize df pwf)
           = sum_list (map Payment df) + sum_list (map Extra df) + sum_list (map Insurance df)"
    using ne by (simp add: summarize_nonempty)
qed

section \<open>Rounding policy\<close>




section \<open>The zero-rate schedule\<close>





section \<open>Repayment of the principal\<close>






section \<open>The balance column\<close>




section \<open>Cumulative amount and total paid\<close>




text \<open>
  The summary adds the scheduled payment of every record, also of a last period that
  pays less: 100 in two yearly periods with an extra payment of 30 is repaid by 80 and 20,
  and the summary reports 130.
\<close>

lemma early_payoff_total_paid_example:
  "\<not> isl (compute_schedule (plain_loan 100 0 2 ''Yearly'' False 30)) \<and>
   Cumulative_Paid (last (fst (projr (compute_schedule (plain_loan 100 0 2 ''Yearly'' False 30))))) = 100 \<and>
   Total_Paid (snd (projr (compute_schedule (plain_loan 100 0 2 ''Yearly'' False 30)))) = 130"
  by (simp add: eval_simps)

section \<open>Returning calls and bounds on the annuity\<close>

text \<open>When a call returns, in exact arithmetic.\<close>

lemma step_days_pos: "0 < step_days ppy"
  by (simp add: step_days_def)

lemma amortize_returns:
  "1 \<le> d \<Longrightarrow> d + int m * step_days ppy \<le> 3652059 \<Longrightarrow>
   \<exists>rows. amortize p ppy pwf r base m k d bal cum = Inr rows"
proof (induction m arbitrary: k d bal cum)
  case 0
  show ?case by simp
next
  case (Suc m)
  let ?w = "loop_body p pwf r base k d bal cum"
  have s: "0 < step_days ppy" by (rule step_days_pos)
  have q: "0 \<le> int m * step_days ppy" using s by simp
  have e: "d + int (Suc m) * step_days ppy = d + step_days ppy + int m * step_days ppy"
    by (simp add: algebra_simps)
  have d': "1 \<le> d + step_days ppy" "d + step_days ppy \<le> 3652059"
    using Suc.prems q s unfolding e by linarith+
  then have add: "date_add d (step_days ppy) = Inr (d + step_days ppy)"
    by (simp add: date_add_def)
  have "d + step_days ppy + int m * step_days ppy \<le> 3652059"
    using Suc.prems(2) unfolding e .
  from Suc.IH [OF d'(1) this] obtain rows where
    "amortize p ppy pwf r base m (Suc k) (d + step_days ppy) (row_bal ?w) (row_cumulative ?w) = Inr rows"
    by blast
  with add show ?case by (simp add: Let_def)
qed

lemma base_payment_returns:
  assumes "0 \<le> annual_rate_pct p" "0 < ppy"
  shows "\<exists>b. base_payment_of (\<lambda>x. x) p (total_periods yrs ppy) pwf (period_rate_of (\<lambda>x. x) p ppy) = Inr b"
proof -
  let ?n = "total_periods yrs ppy" and ?r = "period_rate_of (\<lambda>x. x) p ppy"
  have n: "0 < ?n" by (rule total_periods_pos)
  have r: "0 \<le> ?r" using assms by (simp add: period_rate_of_def)
  have "(1 + ?r) ^ ?n - 1 \<noteq> 0" if "?r \<noteq> 0"
  proof -
    from that r have "0 < ?r" by simp
    from annuity_denominator_pos [OF this n] show ?thesis by simp
  qed
  with n show ?thesis by (simp add: base_payment_of_def fdiv_def Let_def)
qed

lemma schedule_rows_returns:
  assumes "periods_per_year_of (compounding p) = Inr ppy" "0 \<le> annual_rate_pct p"
    and "1 \<le> start_date p"
    and "start_date p + int (total_periods (years p) ppy) * step_days ppy \<le> 3652059"
  shows "\<exists>rows. schedule_rows p = Inr rows"
proof -
  have "0 < ppy" using periods_per_year_cases [OF assms(1)] by auto
  from base_payment_returns [OF assms(2) this] obtain b where
    b: "base_payment_of (\<lambda>x. x) p (total_periods (years p) ppy) (principal_with_fees_of (\<lambda>x. x) p)
          (period_rate_of (\<lambda>x. x) p ppy) = Inr b" by blast
  from amortize_returns [OF assms(3,4)] obtain rows where
    "amortize p ppy (principal_with_fees_of (\<lambda>x. x) p) (period_rate_of (\<lambda>x. x) p ppy) b
       (total_periods (years p) ppy) 1 (start_date p) (principal_with_fees_of (\<lambda>x. x) p) 0 = Inr rows"
    by blast
  with assms(1) b show ?thesis by (simp add: schedule_rows_def Let_def)
qed

lemma compute_schedule_returns:
  assumes "periods_per_year_of (compounding p) = Inr ppy" "0 \<le> annual_rate_pct p"
    and "1 \<le> start_date p"
    and "start_date p + int (total_periods (years p) ppy) * step_days ppy \<le> 3652059"
  shows "\<exists>df s. compute_schedule p = Inr (df, s)"
proof -
  from schedule_rows_returns [OF assms] obtain rows where "schedule_rows p = Inr rows" by blast
  then show ?thesis by (simp add: compute_schedule_def Let_def)
qed

text \<open>Bounds on the annuity payment.\<close>

lemma power_linear_bound: "0 \<le> (r::rat) \<Longrightarrow> 1 + of_nat n * r \<le> (1 + r) ^ n"
proof (induction n)
  case 0
  show ?case by simp
next
  case (Suc n)
  have "0 \<le> of_nat n * (r * r)" using Suc.prems by simp
  then have "1 + of_nat (Suc n) * r \<le> (1 + r) * (1 + of_nat n * r)"
    by (simp add: algebra_simps)
  also have "\<dots> \<le> (1 + r) * (1 + r) ^ n"
    using Suc by (intro mult_left_mono) simp_all
  finally show ?case by simp
qed

lemma annuity_payment_upper:
  assumes "valid_setup p n pwf r base" "\<not> flat_interest p" "r \<noteq> 0"
  shows "base \<le> pwf * r + pwf / of_nat n"
proof -
  from assms have r: "0 < r" and n: "0 < n" and pwf: "0 \<le> pwf"
    and base: "base = pwf * r * (1 + r) ^ n / ((1 + r) ^ n - 1)"
    by (auto simp add: valid_setup_def)
  define D where "D = (1 + r) ^ n - 1"
  have nr: "0 < of_nat n * r" using r n by simp
  have Dn: "of_nat n * r \<le> D" using power_linear_bound [of r n] r by (simp add: D_def)
  with nr have D: "0 < D" by simp
  have "base = pwf * r * (D + 1) / D" unfolding base D_def by simp
  also have "\<dots> = pwf * r + pwf * r / D" using D by (simp add: field_simps)
  also have "pwf * r / D \<le> pwf * r / (of_nat n * r)"
    using Dn nr pwf r by (intro divide_left_mono) (simp_all add: mult_pos_pos)
  also have "pwf * r / (of_nat n * r) = pwf / of_nat n" using r by simp
  finally show ?thesis by simp
qed

lemma sched_bal_last_period:
  assumes "valid_setup p n pwf r base" "\<not> flat_interest p"
  shows "sched_bal p pwf r base (n - 1) * (1 + r) = base"
proof -
  from assms(1) have n: "0 < n" by (simp add: valid_setup_def)
  then have "sched_bal p pwf r base (Suc (n - 1)) = 0"
    using sched_bal_end [OF assms(1)] by simp
  then show ?thesis
    using assms(2) by (simp add: sched_bal_Suc sched_next_def algebra_simps)
qed

lemma sched_bal_flat_cong:
  "flat_interest p = flat_interest p' \<Longrightarrow> sched_bal p pwf r base j = sched_bal p' pwf r base j"
proof -
  assume "flat_interest p = flat_interest p'"
  then have "sched_next p pwf r base = sched_next p' pwf r base"
    by (simp add: fun_eq_iff sched_next_def)
  then show ?thesis by (simp add: sched_bal_def)
qed

text \<open>Sums of lists.\<close>

lemma sum_list_elem_le:
  fixes ys :: "rat list"
  shows "(\<And>y. y \<in> set ys \<Longrightarrow> 0 \<le> y) \<Longrightarrow> x \<in> set ys \<Longrightarrow> x \<le> sum_list ys"
proof (induction ys)
  case Nil
  then show ?case by simp
next
  case (Cons y ys)
  have y: "0 \<le> y" and s: "0 \<le> sum_list ys"
    using Cons.prems(1) by (simp_all add: sum_list_nonneg)
  show ?case
  proof (cases "x = y")
    case True
    with s show ?thesis by simp
  next
    case False
    with Cons.prems have "x \<in> set ys" by simp
    with Cons.IH Cons.prems(1) have "x \<le> sum_list ys" by simp
    with y show ?thesis by simp
  qed
qed

lemma sum_list_prefix_less:
  fixes xs ys :: "rat list"
  assumes "length xs < length ys" "\<And>i. i < length xs \<Longrightarrow> xs ! i \<le> ys ! i"
    and "\<And>y. y \<in> set ys \<Longrightarrow> 0 \<le> y" "0 < last ys"
  shows "sum_list xs < sum_list ys"
proof -
  let ?m = "length xs"
  have "sum_list xs \<le> sum_list (take ?m ys)"
    by (rule sum_list_mono2) (use assms(1,2) in simp_all)
  moreover have "0 < sum_list (drop ?m ys)"
  proof -
    have ne: "drop ?m ys \<noteq> []" using assms(1) by simp
    then have "last (drop ?m ys) = last ys" using assms(1) by simp
    moreover have "last (drop ?m ys) \<in> set (drop ?m ys)" using ne by (rule last_in_set)
    moreover have "0 \<le> y" if "y \<in> set (drop ?m ys)" for y
      using that assms(3) by (meson in_set_dropD)
    ultimately have "last ys \<le> sum_list (drop ?m ys)"
      using sum_list_elem_le [of "drop ?m ys" "last (drop ?m ys)"] by simp
    with assms(4) show ?thesis by simp
  qed
  moreover have "sum_list ys = sum_list (take ?m ys) + sum_list (drop ?m ys)"
    by (metis append_take_drop_id sum_list.append)
  ultimately show ?thesis by simp
qed

section \<open>The reducing-balance scenario\<close>

lemma emi_scenario_fields:
  "periods_per_year_of (compounding (emi_scenario d e)) = Inr 12"
  "total_periods (years (emi_scenario d e)) 12 = 240"
  "principal_with_fees_of (\<lambda>x. x) (emi_scenario d e) = 2500000"
  "period_rate_of (\<lambda>x. x) (emi_scenario d e) 12 = 3 / 400"
  "\<not> flat_interest (emi_scenario d e)"
  "extra_per_period (emi_scenario d e) = e"
  "start_date (emi_scenario d e) = d"
  "step_days 12 = 30"
  by (simp_all add: emi_scenario_def plain_loan_def periods_per_year_of_def total_periods_def
      principal_with_fees_of_def period_rate_of_def step_days_def)

text \<open>
  A run of the scenario: its rows, the scheduled payment \<open>base\<close>, which does not depend on
  the extra payment, and the facts about the loop.
\<close>

lemma emi_scenario_run:
  assumes "1 \<le> d" "d + 7200 \<le> 3652059" "0 \<le> e"
  obtains df s rows base where
    "compute_schedule (emi_scenario d e) = Inr (df, s)"
    "df = map sched_entry rows" "rows \<noteq> []" "length rows \<le> 240"
    "s = summarize df 2500000"
    "base_payment_of (\<lambda>x. x) (emi_scenario d 0) 240 2500000 (3 / 400) = Inr base"
    "valid_setup (emi_scenario d e) 240 2500000 (3 / 400) base"
    "follows_loop (emi_scenario d e) 12 2500000 (3 / 400) base 1 d 2500000 0 rows"
    "amortize (emi_scenario d e) 12 2500000 (3 / 400) base 240 1 d 2500000 0 = Inr rows"
proof -
  let ?p = "emi_scenario d e"
  note fs = emi_scenario_fields
  have "\<exists>df s. compute_schedule ?p = Inr (df, s)"
    by (rule compute_schedule_returns [OF fs(1)])
       (use assms in \<open>simp_all add: fs, simp_all add: emi_scenario_def plain_loan_def\<close>)
  then obtain df s where ret: "compute_schedule ?p = Inr (df, s)" by blast
  from ret obtain ppy base rows where
    ppy: "periods_per_year_of (compounding ?p) = Inr ppy"
    and base: "base_payment_of (\<lambda>x. x) ?p (total_periods (years ?p) ppy) (principal_with_fees_of (\<lambda>x. x) ?p)
       (period_rate_of (\<lambda>x. x) ?p ppy) = Inr base"
    and run: "amortize ?p ppy (principal_with_fees_of (\<lambda>x. x) ?p) (period_rate_of (\<lambda>x. x) ?p ppy) base
       (total_periods (years ?p) ppy) 1 (start_date ?p) (principal_with_fees_of (\<lambda>x. x) ?p) 0 = Inr rows"
    and df: "df = map sched_entry rows" and ne: "rows \<noteq> []"
    and s: "s = summarize df (principal_with_fees_of (\<lambda>x. x) ?p)"
    by (rule compute_schedule_run)
  from ppy fs(1) have ppy12: "ppy = 12" by simp
  have valid: "valid_setup ?p (total_periods (years ?p) ppy) (principal_with_fees_of (\<lambda>x. x) ?p)
      (period_rate_of (\<lambda>x. x) ?p ppy) base"
    by (rule valid_setupI [OF _ _ _ _ _ _ ppy base])
       (use assms(3) in \<open>simp_all add: emi_scenario_def plain_loan_def\<close>)
  note base' = base [unfolded ppy12 fs] and run' = run [unfolded ppy12 fs]
    and valid' = valid [unfolded ppy12 fs]
  have base0: "base_payment_of (\<lambda>x. x) (emi_scenario d 0) 240 2500000 (3 / 400) = Inr base"
    using base' by (simp add: base_payment_of_def emi_scenario_def plain_loan_def)
  from amortize_follows [OF run']
  have f: "follows_loop ?p 12 2500000 (3 / 400) base 1 d 2500000 0 rows"
    and len: "length rows \<le> 240" by simp_all
  from ret df ne len s [unfolded fs] base0 valid' f run' show ?thesis by (rule that)
qed


lemma emi_scenario_undisturbed:
  assumes "valid_setup (emi_scenario d 0) 240 2500000 (3 / 400) base"
    and "follows_loop (emi_scenario d 0) 12 2500000 (3 / 400) base 1 d 2500000 0 rows"
    and "length rows = 240" "i < 240"
  shows "row_interest (rows ! i) = sched_bal (emi_scenario d 0) 2500000 (3 / 400) base i * (3 / 400)"
proof -
  let ?p = "emi_scenario d 0"
  have i: "i < length rows" using assms(3,4) by simp
  have "bal_before 2500000 rows i = sched_bal ?p 2500000 (3 / 400) base i"
  proof (cases i)
    case 0
    then show ?thesis by (simp add: bal_before_def sched_bal_0)
  next
    case (Suc j)
    have "row_bal (rows ! j) = sched_bal ?p 2500000 (3 / 400) base (0 + j + 1)"
      using assms(1) _ assms(2)
      by (rule follows_loop_exact)
         (use assms(3) i Suc in \<open>simp_all add: emi_scenario_fields sched_bal_0\<close>)
    with Suc show ?thesis by (simp add: bal_before_def)
  qed
  with follows_loop_interest(1) [OF assms(2) i] show ?thesis
    by (simp add: emi_scenario_fields)
qed

lemma emi_scenario_with_extra:
  assumes "valid_setup (emi_scenario d e) 240 2500000 (3 / 400) base"
    and "follows_loop (emi_scenario d e) 12 2500000 (3 / 400) base 1 d 2500000 0 rows"
    and "i < length rows" "i < 240"
  shows "row_interest (rows ! i) \<le> sched_bal (emi_scenario d 0) 2500000 (3 / 400) base i * (3 / 400)"
proof -
  let ?p = "emi_scenario d e"
  have same: "sched_bal ?p 2500000 (3 / 400) base j = sched_bal (emi_scenario d 0) 2500000 (3 / 400) base j"
    for j by (rule sched_bal_flat_cong) (simp add: emi_scenario_fields)
  have "bal_before 2500000 rows i \<le> sched_bal ?p 2500000 (3 / 400) base i"
  proof (cases i)
    case 0
    then show ?thesis by (simp add: bal_before_def sched_bal_0)
  next
    case (Suc j)
    have "row_bal (rows ! j) \<le> sched_bal ?p 2500000 (3 / 400) base (Suc j)"
      using assms(1,2) by (rule follows_loop_below_schedule) (use assms(3,4) Suc in simp_all)
    with Suc show ?thesis by (simp add: bal_before_def)
  qed
  then have "bal_before 2500000 rows i * (3 / 400) \<le> sched_bal ?p 2500000 (3 / 400) base i * (3 / 400)"
    by (rule mult_right_mono) simp
  with follows_loop_interest(1) [OF assms(2,3)] show ?thesis
    by (simp only: same emi_scenario_fields if_False)
qed

text \<open>The balance of the undisturbed schedule before the last period.\<close>

lemma emi_scenario_last_balance:
  assumes "valid_setup (emi_scenario d 0) 240 2500000 (3 / 400) base"
  shows "sched_bal (emi_scenario d 0) 2500000 (3 / 400) base 239 \<le> 239 * 5000"
    and "1 / 100 \<le> sched_bal (emi_scenario d 0) 2500000 (3 / 400) base 239 * (3 / 400)"
proof -
  let ?p = "emi_scenario d 0"
  define S where "S = sched_bal ?p 2500000 (3 / 400) base 239"
  have nf: "\<not> flat_interest ?p" by (simp add: emi_scenario_fields)
  have "sched_bal ?p 2500000 (3 / 400) base (240 - 1) * (1 + 3 / 400) = base"
    using assms nf by (rule sched_bal_last_period)
  then have S: "S * (403 / 400) = base" by (simp add: S_def)
  have up: "base \<le> 2500000 * (3 / 400) + 2500000 / of_nat 240"
    using assms nf by (rule annuity_payment_upper) simp
  have "(if flat_interest ?p then 2500000 * (3 / 400) else 2500000 * (3 / 400)) \<le> base"
    using assms by (rule base_covers_interest) simp
  then have low: "2500000 * (3 / 400) \<le> base" by simp
  from S up have "S \<le> 239 * 5000" by simp
  moreover from S low have "1 / 100 \<le> S * (3 / 400)" by simp
  ultimately show "sched_bal ?p 2500000 (3 / 400) base 239 \<le> 239 * 5000"
    and "1 / 100 \<le> sched_bal ?p 2500000 (3 / 400) base 239 * (3 / 400)"
    by (simp_all add: S_def)
qed

text \<open>
  C9. In the reducing-balance scenario, from any start date that leaves room for 240
  monthly steps, both calls return; without extra payment the tenure is 240 periods, with
  an extra payment of 5000 the tenure is shorter and the total interest strictly smaller.
\<close>

theorem extra_payment_shortens_tenure:
  assumes "1 \<le> d" "d + 7200 \<le> 3652059"
  shows "\<exists>df s df' s'. compute_schedule (emi_scenario d 0) = Inr (df, s) \<and>
           compute_schedule (emi_scenario d 5000) = Inr (df', s') \<and>
           Tenure s = 240 \<and> Tenure s' < 240 \<and> Total_Interest s' < Total_Interest s"
proof -
  let ?p = "emi_scenario d 0" and ?q = "emi_scenario d 5000"
  let ?S = "sched_bal (emi_scenario d 0) 2500000 (3 / 400)"
  from assms obtain df s rows base where
    ret: "compute_schedule ?p = Inr (df, s)"
    and df: "df = map sched_entry rows" and ne: "rows \<noteq> []"
    and s: "s = summarize df 2500000"
    and base: "base_payment_of (\<lambda>x. x) (emi_scenario d 0) 240 2500000 (3 / 400) = Inr base"
    and valid: "valid_setup ?p 240 2500000 (3 / 400) base"
    and f: "follows_loop ?p 12 2500000 (3 / 400) base 1 d 2500000 0 rows"
    and run: "amortize ?p 12 2500000 (3 / 400) base 240 1 d 2500000 0 = Inr rows"
    by (rule emi_scenario_run [of d 0]) simp_all
  from assms obtain df' s' rows' base' where
    ret': "compute_schedule ?q = Inr (df', s')"
    and df': "df' = map sched_entry rows'" and ne': "rows' \<noteq> []"
    and len': "length rows' \<le> 240"
    and s': "s' = summarize df' 2500000"
    and base': "base_payment_of (\<lambda>x. x) (emi_scenario d 0) 240 2500000 (3 / 400) = Inr base'"
    and valid': "valid_setup ?q 240 2500000 (3 / 400) base'"
    and f': "follows_loop ?q 12 2500000 (3 / 400) base' 1 d 2500000 0 rows'"
    by (rule emi_scenario_run [of d 5000]) simp_all
  from base base' have same: "base' = base" by simp
  note valid' = valid' [unfolded same] and f' = f' [unfolded same]
  have len: "length rows = 240"
    using valid _ _ run by (rule full_length_without_extra) (simp_all add: emi_scenario_fields)
  note last_bal = emi_scenario_last_balance [OF valid]
  have short: "length rows' < 240"
  proof (rule ccontr)
    assume "\<not> length rows' < 240"
    with len' have l: "length rows' = 240" by simp
    then have "Suc 238 < length rows'" by simp
    with f' have pos: "0 < row_bal (rows' ! 238)" by (rule follows_loop_positive)
    have "row_bal (rows' ! 238)
            \<le> max 0 (sched_bal ?q 2500000 (3 / 400) base (0 + 238 + 1)
                       - of_nat (0 + 238 + 1) * extra_per_period ?q)"
      using valid' f' by (rule follows_loop_upper) (simp_all add: sched_bal_0 l)
    also have "sched_bal ?q 2500000 (3 / 400) base (0 + 238 + 1) = ?S base 239"
      by (simp add: sched_bal_flat_cong [of ?q ?p] emi_scenario_fields)
    finally have "row_bal (rows' ! 238) \<le> max 0 (?S base 239 - 239 * 5000)"
      by (simp add: emi_scenario_fields)
    with last_bal(1) pos show False by simp
  qed
  have tenure: "Tenure s = 240" "Tenure s' < 240"
    using len short by (simp_all add: s s' df df' summarize_tenure)
  have total: "Total_Interest s = sum_list (map Interest df)"
    unfolding s using ne df by (rule summarize_totals(1))
  have total': "Total_Interest s' = sum_list (map Interest df')"
    unfolding s' using ne' df' by (rule summarize_totals(1))
  have int0: "Interest (df ! i) = round2 (?S base i * (3 / 400))" if "i < 240" for i
  proof -
    have "Interest (df ! i) = round2 (row_interest (rows ! i))"
      using that len by (simp add: df sched_entry_fields)
    then show ?thesis by (simp only: emi_scenario_undisturbed [OF valid f len that])
  qed
  have "sum_list (map Interest df') < sum_list (map Interest df)"
  proof (rule sum_list_prefix_less)
    show "length (map Interest df') < length (map Interest df)"
      using short len by (simp add: df df')
    show "map Interest df' ! i \<le> map Interest df ! i" if "i < length (map Interest df')" for i
    proof -
      from that have i: "i < length rows'" by (simp add: df')
      with short have i240: "i < 240" by simp
      have "row_interest (rows' ! i) \<le> ?S base i * (3 / 400)"
        using valid' f' i i240 by (rule emi_scenario_with_extra)
      then have "round2 (row_interest (rows' ! i)) \<le> round2 (?S base i * (3 / 400))"
        by (rule round2_mono)
      with i i240 len int0 [OF i240] show ?thesis
        by (simp add: df df' sched_entry_fields)
    qed
    show "0 \<le> y" if "y \<in> set (map Interest df)" for y
    proof -
      from that obtain i where i: "i < 240" and y: "y = Interest (df ! i)"
        using len by (auto simp add: df in_set_conv_nth)
      have "0 \<le> ?S base i" using valid by (rule sched_bal_nonneg) (use i in simp)
      then have "0 \<le> ?S base i * (3 / 400)" by simp
      then show ?thesis unfolding y int0 [OF i] by (rule round2_nonneg)
    qed
    show "0 < last (map Interest df)"
    proof -
      have dfl: "length df = 240" using len df by simp
      then have dfne: "df \<noteq> []" by auto
      have "last df = df ! 239" using dfne dfl by (simp add: last_conv_nth)
      with dfne have "last (map Interest df) = Interest (df ! 239)" by (simp add: last_map)
      also have "\<dots> = round2 (?S base 239 * (3 / 400))" by (rule int0) simp
      finally have "round2 (1 / 100) \<le> last (map Interest df)"
        using round2_mono [OF last_bal(2)] by simp
      moreover have "round2 (1 / 100) = 1 / 100"
        using round2_cents [of 1] by simp
      ultimately show ?thesis by simp
    qed
  qed
  with total total' have "Total_Interest s' < Total_Interest s" by simp
  with ret ret' tenure show ?thesis by blast
qed

theorem extra_payment_shortens_tenure_witness:
  "\<exists>df s df' s'. compute_schedule (emi_scenario 738886 0) = Inr (df, s) \<and>
      compute_schedule (emi_scenario 738886 5000) = Inr (df', s') \<and>
      Tenure s = 240 \<and> Tenure s' < 240 \<and> Total_Interest s' < Total_Interest s"
  using extra_payment_shortens_tenure [of 738886] by simp

end
